theory Spec2Isabelle
  imports Main
begin

section \<open>The data model of minheap.c\<close>

text \<open>
  The header \<^verbatim>\<open>minheap.h\<close> is not part of the sources; the two structures are read off
  their uses in \<^verbatim>\<open>minheap.c\<close>: a \<^verbatim>\<open>HeapNode\<close> has the fields \<^verbatim>\<open>priority\<close> and \<^verbatim>\<open>id\<close>,
  a \<^verbatim>\<open>MinHeap\<close> has \<^verbatim>\<open>size\<close>, \<^verbatim>\<open>capacity\<close>, \<^verbatim>\<open>arr\<close> and \<^verbatim>\<open>indexMap\<close>.

  The two arrays are modelled as stores from indices to values. The cells outside the
  allocated ranges (\<open>0..capacity\<close> for \<^verbatim>\<open>arr\<close>, \<open>0..capacity - 1\<close> for \<^verbatim>\<open>indexMap\<close>) stand for
  memory a C program must not touch. C's \<^verbatim>\<open>int\<close> is modelled by \<open>int\<close>: the only
  arithmetic is \<open>size + 1\<close>, \<open>size - 1\<close>, \<open>2 * i\<close>, \<open>2 * i + 1\<close> and \<open>i / 2\<close> on valid
  indices \<open>i\<close>, which stays inside the machine range as long as \<open>2 * size + 1\<close> does, and
  \<open>i / 2\<close> is only computed for \<open>i \<ge> 1\<close>, where C's truncating division is \<open>div\<close>.
  The heap pointer itself is never \<^verbatim>\<open>NULL\<close> in the model.
\<close>

record HeapNode =
  priority :: int
  id_node :: int

record MinHeap =
  size_heap :: int
  capacity :: int
  arr :: "int \<Rightarrow> HeapNode"
  indexMap :: "int \<Rightarrow> int"

definition ROOT_INDEX :: int where
  "ROOT_INDEX = 1"

definition NOTHING :: int where
  "NOTHING = - 1"

section \<open>Helper functions\<close>

definition isValidIndex :: "MinHeap \<Rightarrow> int \<Rightarrow> bool" where
  "isValidIndex heap maybeIdx \<longleftrightarrow> maybeIdx \<ge> ROOT_INDEX \<and> maybeIdx \<le> size_heap heap"

definition nodeAt :: "MinHeap \<Rightarrow> int \<Rightarrow> HeapNode" where
  "nodeAt heap nodeIndex = arr heap nodeIndex"

definition priorityAt :: "MinHeap \<Rightarrow> int \<Rightarrow> int" where
  "priorityAt heap nodeIndex = priority (arr heap nodeIndex)"

definition idAt :: "MinHeap \<Rightarrow> int \<Rightarrow> int" where
  "idAt heap nodeIndex = id_node (arr heap nodeIndex)"

definition indexOf :: "MinHeap \<Rightarrow> int \<Rightarrow> int" where
  "indexOf heap i = indexMap heap i"

definition leftIdx :: "MinHeap \<Rightarrow> int \<Rightarrow> int" where
  "leftIdx heap nodeIndex =
     (if \<not> isValidIndex heap nodeIndex then NOTHING
      else let left = 2 * nodeIndex in
        if isValidIndex heap left then left else NOTHING)"

definition rightIdx :: "MinHeap \<Rightarrow> int \<Rightarrow> int" where
  "rightIdx heap nodeIndex =
     (if \<not> isValidIndex heap nodeIndex then NOTHING
      else let right = (2 * nodeIndex) + 1 in
        if isValidIndex heap right then right else NOTHING)"

definition parentIdx :: "MinHeap \<Rightarrow> int \<Rightarrow> int" where
  "parentIdx heap nodeIndex =
     (if nodeIndex = 1 \<or> \<not> isValidIndex heap nodeIndex then NOTHING else nodeIndex div 2)"

text \<open>
  \<^verbatim>\<open>swap\<close> writes the index map first (the entry of the identifier at \<open>index1\<close>, then the
  entry of the identifier at \<open>index2\<close>, both identifiers read before the nodes move) and
  then exchanges the two nodes.
\<close>

definition swap :: "MinHeap \<Rightarrow> int \<Rightarrow> int \<Rightarrow> MinHeap" where
  "swap heap index1 index2 =
     (if isValidIndex heap index1 \<and> isValidIndex heap index2 then
        let temp = nodeAt heap index1;
            heap1 = heap\<lparr>indexMap := (indexMap heap)(idAt heap index1 := index2)\<rparr>;
            heap2 = heap1\<lparr>indexMap := (indexMap heap1)(idAt heap1 index2 := index1)\<rparr>;
            heap3 = heap2\<lparr>arr := (arr heap2)(index1 := nodeAt heap2 index2)\<rparr>
        in heap3\<lparr>arr := (arr heap3)(index2 := temp)\<rparr>
      else heap)"

lemma swap_size [simp]: "size_heap (swap heap i j) = size_heap heap"
  by (simp add: swap_def Let_def)

lemma swap_indexOf_second:
  "isValidIndex heap i \<Longrightarrow> isValidIndex heap j \<Longrightarrow> indexOf (swap heap i j) (idAt heap j) = i"
  by (simp add: swap_def Let_def indexOf_def idAt_def)

function bubbleUp :: "MinHeap \<Rightarrow> int \<Rightarrow> MinHeap" where
  "bubbleUp heap nodeIndex =
     (if size_heap heap = 0 then heap
      else if parentIdx heap nodeIndex = NOTHING then heap
      else if priorityAt heap (parentIdx heap nodeIndex) > priorityAt heap nodeIndex
        then bubbleUp (swap heap (parentIdx heap nodeIndex) nodeIndex)
               (indexOf (swap heap (parentIdx heap nodeIndex) nodeIndex) (idAt heap nodeIndex))
        else heap)"
  by pat_completeness auto

lemma parentIdx_valid:
  assumes "parentIdx heap n \<noteq> NOTHING"
  shows "isValidIndex heap n" and "parentIdx heap n = n div 2"
    and "isValidIndex heap (n div 2)" and "n div 2 < n"
  using assms
  by (auto simp: parentIdx_def isValidIndex_def ROOT_INDEX_def NOTHING_def split: if_splits)

termination bubbleUp
proof (relation "measure (\<lambda>(heap, nodeIndex). nat nodeIndex)")
  show "wf (measure (\<lambda>(heap, nodeIndex). nat nodeIndex))" by simp
next
  fix heap :: MinHeap and nodeIndex :: int
  assume p: "parentIdx heap nodeIndex \<noteq> NOTHING"
  have "indexOf (swap heap (nodeIndex div 2) nodeIndex) (idAt heap nodeIndex) = nodeIndex div 2"
    using parentIdx_valid [OF p] by (simp add: swap_indexOf_second)
  moreover have "nodeIndex div 2 < nodeIndex" "0 < nodeIndex"
    using parentIdx_valid [OF p] by (auto simp: isValidIndex_def ROOT_INDEX_def)
  ultimately show
    "((swap heap (parentIdx heap nodeIndex) nodeIndex,
       indexOf (swap heap (parentIdx heap nodeIndex) nodeIndex) (idAt heap nodeIndex)),
      heap, nodeIndex) \<in> measure (\<lambda>(heap, nodeIndex). nat nodeIndex)"
    using parentIdx_valid(2) [OF p] by simp
qed

text \<open>
  One pass through the body of the \<^verbatim>\<open>while\<close> loop of \<^verbatim>\<open>bubbleDown\<close>, up to the point
  where \<^verbatim>\<open>left\<close> and \<^verbatim>\<open>right\<close> are recomputed: either the loop is left by \<^verbatim>\<open>break\<close>, or
  one of the four \<^verbatim>\<open>swap\<close> calls has run.
\<close>

datatype step = Break | Swapped MinHeap

definition bubbleDown_body :: "MinHeap \<Rightarrow> int \<Rightarrow> int \<Rightarrow> int \<Rightarrow> step" where
  "bubbleDown_body heap i left right =
     (let priority = priorityAt heap (indexOf heap i);
          priorityLeft = priorityAt heap left
      in
        if right = NOTHING then
          (if priority > priorityLeft then Swapped (swap heap (indexOf heap i) left)
           else Break)
        else
          (let priorityRight = priorityAt heap right in
             if priority > priorityLeft \<and> priority > priorityRight then
               (if priorityLeft < priorityRight then Swapped (swap heap (indexOf heap i) left)
                else Swapped (swap heap (indexOf heap i) right))
             else if priority > priorityLeft then Swapped (swap heap (indexOf heap i) left)
             else if priority > priorityRight then Swapped (swap heap (indexOf heap i) right)
             else Break))"

text \<open>
  The \<^verbatim>\<open>while (left != NOTHING)\<close> loop. Nothing in the loop itself bounds the number of
  passes, so the loop is a partial function: \<open>None\<close> stands for a loop that never ends.
\<close>

partial_function (option) bubbleDown_loop :: "MinHeap \<Rightarrow> int \<Rightarrow> int \<Rightarrow> int \<Rightarrow> MinHeap option" where
  "bubbleDown_loop heap i left right =
     (if left \<noteq> NOTHING then
        (case bubbleDown_body heap i left right of
           Break \<Rightarrow> Some heap
         | Swapped heap' \<Rightarrow>
             bubbleDown_loop heap' i (leftIdx heap' (indexOf heap' i))
               (rightIdx heap' (indexOf heap' i)))
      else Some heap)"

declare bubbleDown_loop.simps [code]

definition bubbleDown :: "MinHeap \<Rightarrow> MinHeap option" where
  "bubbleDown heap =
     (if size_heap heap > 0 then
        bubbleDown_loop heap (idAt heap ROOT_INDEX) (leftIdx heap ROOT_INDEX)
          (rightIdx heap ROOT_INDEX)
      else Some heap)"

section \<open>Required functions\<close>

definition getMin :: "MinHeap \<Rightarrow> HeapNode" where
  "getMin heap = arr heap ROOT_INDEX"

definition extractMin :: "MinHeap \<Rightarrow> (HeapNode \<times> MinHeap) option" where
  "extractMin heap =
     (let heap1 = swap heap ROOT_INDEX (size_heap heap);
          save = nodeAt heap1 (size_heap heap1);
          heap2 = heap1\<lparr>indexMap := (indexMap heap1)(idAt heap1 (size_heap heap1) := 0)\<rparr>;
          heap3 = heap2\<lparr>size_heap := size_heap heap2 - 1\<rparr>
      in case bubbleDown heap3 of
           None \<Rightarrow> None
         | Some heap4 \<Rightarrow> Some (save, heap4))"

definition insert_heap :: "MinHeap \<Rightarrow> int \<Rightarrow> int \<Rightarrow> MinHeap" where
  "insert_heap heap priority' i =
     (let newNode = \<lparr>priority = priority', id_node = i\<rparr>;
          heap1 = heap\<lparr>arr := (arr heap)(size_heap heap + 1 := newNode)\<rparr>;
          heap2 = heap1\<lparr>indexMap := (indexMap heap1)(i := size_heap heap1 + 1)\<rparr>;
          heap3 = heap2\<lparr>size_heap := size_heap heap2 + 1\<rparr>
      in bubbleUp heap3 (size_heap heap3))"

text \<open>\<^verbatim>\<open>decreasePriority\<close> is a stub in the source: its whole body is \<^verbatim>\<open>return false;\<close>.\<close>

definition decreasePriority :: "MinHeap \<Rightarrow> int \<Rightarrow> int \<Rightarrow> bool \<times> MinHeap" where
  "decreasePriority heap i newPriority = (False, heap)"

text \<open>
  \<^verbatim>\<open>newHeap\<close> allocates both arrays with \<^verbatim>\<open>malloc\<close> and writes nothing into them; their
  indeterminate contents are the parameters \<open>arr0\<close> and \<open>indexMap0\<close>.
\<close>

definition newHeap :: "int \<Rightarrow> (int \<Rightarrow> HeapNode) \<Rightarrow> (int \<Rightarrow> int) \<Rightarrow> MinHeap" where
  "newHeap capacity' arr0 indexMap0 =
     \<lparr>size_heap = 0, capacity = capacity', arr = arr0, indexMap = indexMap0\<rparr>"

section \<open>Invariants of the data model\<close>

definition heap_order :: "MinHeap \<Rightarrow> bool" where
  "heap_order heap \<longleftrightarrow>
     (\<forall>p\<in>{2..size_heap heap}. priorityAt heap (parentIdx heap p) \<le> priorityAt heap p)"

definition index_consistent :: "MinHeap \<Rightarrow> bool" where
  "index_consistent heap \<longleftrightarrow>
     (\<forall>p\<in>{ROOT_INDEX..size_heap heap}. indexOf heap (idAt heap p) = p)"

definition ids_unique :: "MinHeap \<Rightarrow> bool" where
  "ids_unique heap \<longleftrightarrow>
     (\<forall>p\<in>{ROOT_INDEX..size_heap heap}. \<forall>q\<in>{ROOT_INDEX..size_heap heap}.
        idAt heap q = idAt heap p \<longrightarrow> q = p)"

definition live_nodes :: "MinHeap \<Rightarrow> HeapNode set" where
  "live_nodes heap = arr heap ` {ROOT_INDEX..size_heap heap}"

definition live_ids :: "MinHeap \<Rightarrow> int set" where
  "live_ids heap = idAt heap ` {ROOT_INDEX..size_heap heap}"

lemma valid_iff: "isValidIndex heap p \<longleftrightarrow> 1 \<le> p \<and> p \<le> size_heap heap"
  by (simp add: isValidIndex_def ROOT_INDEX_def)

lemma parentIdx_eq: "2 \<le> p \<Longrightarrow> p \<le> size_heap heap \<Longrightarrow> parentIdx heap p = p div 2"
  by (simp add: parentIdx_def valid_iff)

lemma heap_order_iff:
  "heap_order heap \<longleftrightarrow>
     (\<forall>p. 2 \<le> p \<and> p \<le> size_heap heap \<longrightarrow> priorityAt heap (p div 2) \<le> priorityAt heap p)"
  by (auto simp: heap_order_def parentIdx_eq)

lemma index_consistent_iff:
  "index_consistent heap \<longleftrightarrow>
     (\<forall>p. 1 \<le> p \<and> p \<le> size_heap heap \<longrightarrow> indexOf heap (idAt heap p) = p)"
  by (auto simp: index_consistent_def ROOT_INDEX_def)

lemma index_consistent_inj:
  assumes "index_consistent heap" "1 \<le> p" "p \<le> size_heap heap" "1 \<le> q" "q \<le> size_heap heap"
    "idAt heap p = idAt heap q"
  shows "p = q"
  using assms unfolding index_consistent_iff by metis

lemma index_consistent_unique: "index_consistent heap \<Longrightarrow> ids_unique heap"
  unfolding ids_unique_def ROOT_INDEX_def
  by (auto intro: index_consistent_inj)

lemma swap_valid:
  assumes "isValidIndex heap i" "isValidIndex heap j"
  shows "swap heap i j =
    heap\<lparr>indexMap := (indexMap heap)(idAt heap i := j, idAt heap j := i),
         arr := (arr heap)(i := arr heap j, j := arr heap i)\<rparr>"
  using assms by (simp add: swap_def Let_def nodeAt_def idAt_def)

lemma swap_capacity [simp]: "capacity (swap heap i j) = capacity heap"
  by (simp add: swap_def Let_def)

lemma swap_isValidIndex [simp]: "isValidIndex (swap heap i j) k = isValidIndex heap k"
  by (simp add: isValidIndex_def)

lemma swap_leftIdx [simp]: "leftIdx (swap heap i j) k = leftIdx heap k"
  by (simp add: leftIdx_def)

lemma swap_rightIdx [simp]: "rightIdx (swap heap i j) k = rightIdx heap k"
  by (simp add: rightIdx_def)

lemma swap_arr:
  assumes "isValidIndex heap i" "isValidIndex heap j"
  shows "arr (swap heap i j) k = (if k = j then arr heap i else if k = i then arr heap j else arr heap k)"
  using assms by (simp add: swap_valid)

lemma swap_priorityAt:
  assumes "isValidIndex heap i" "isValidIndex heap j"
  shows "priorityAt (swap heap i j) k =
    (if k = j then priorityAt heap i else if k = i then priorityAt heap j else priorityAt heap k)"
  using assms by (simp add: priorityAt_def swap_arr)

lemma swap_idAt:
  assumes "isValidIndex heap i" "isValidIndex heap j"
  shows "idAt (swap heap i j) k =
    (if k = j then idAt heap i else if k = i then idAt heap j else idAt heap k)"
  using assms by (simp add: idAt_def swap_arr)

lemma swap_indexOf:
  assumes "isValidIndex heap i" "isValidIndex heap j"
  shows "indexOf (swap heap i j) x =
    (if x = idAt heap j then i else if x = idAt heap i then j else indexOf heap x)"
  using assms by (simp add: indexOf_def swap_valid)

lemma swap_live_nodes:
  assumes "isValidIndex heap i" "isValidIndex heap j"
  shows "live_nodes (swap heap i j) = live_nodes heap"
proof -
  have ij: "i \<in> {ROOT_INDEX..size_heap heap}" "j \<in> {ROOT_INDEX..size_heap heap}"
    using assms by (simp_all add: isValidIndex_def)
  show ?thesis
    unfolding live_nodes_def swap_size
  proof (intro equalityI subsetI)
    fix x assume "x \<in> arr (swap heap i j) ` {ROOT_INDEX..size_heap heap}"
    then obtain k where k: "k \<in> {ROOT_INDEX..size_heap heap}" "x = arr (swap heap i j) k" by blast
    then show "x \<in> arr heap ` {ROOT_INDEX..size_heap heap}"
      using ij by (auto simp: swap_arr [OF assms])
  next
    fix x assume "x \<in> arr heap ` {ROOT_INDEX..size_heap heap}"
    then obtain k where k: "k \<in> {ROOT_INDEX..size_heap heap}" "x = arr heap k" by blast
    let ?k' = "if k = i then j else if k = j then i else k"
    have "?k' \<in> {ROOT_INDEX..size_heap heap}" using k ij by auto
    moreover have "arr (swap heap i j) ?k' = x" using k by (simp add: swap_arr [OF assms])
    ultimately show "x \<in> arr (swap heap i j) ` {ROOT_INDEX..size_heap heap}" by (metis imageI)
  qed
qed

lemma live_ids_nodes: "live_ids heap = id_node ` live_nodes heap"
  by (auto simp: live_ids_def live_nodes_def idAt_def)

lemma swap_index_consistent:
  assumes "isValidIndex heap i" "isValidIndex heap j" "index_consistent heap"
  shows "index_consistent (swap heap i j)"
  unfolding index_consistent_iff
proof (intro allI impI)
  fix p assume p: "1 \<le> p \<and> p \<le> size_heap (swap heap i j)"
  have ij: "1 \<le> i" "i \<le> size_heap heap" "1 \<le> j" "j \<le> size_heap heap"
    using assms by (simp_all add: valid_iff)
  have c: "\<And>q. 1 \<le> q \<Longrightarrow> q \<le> size_heap heap \<Longrightarrow> indexOf heap (idAt heap q) = q"
    using assms(3) by (simp add: index_consistent_iff)
  have inj: "\<And>q r. 1 \<le> q \<Longrightarrow> q \<le> size_heap heap \<Longrightarrow> 1 \<le> r \<Longrightarrow> r \<le> size_heap heap \<Longrightarrow>
      idAt heap q = idAt heap r \<Longrightarrow> q = r"
    using index_consistent_inj [OF assms(3)] by blast
  show "indexOf (swap heap i j) (idAt (swap heap i j) p) = p"
    using p ij c [of p] inj [of p i] inj [of p j] inj [of i j]
    by (auto simp: swap_indexOf [OF assms(1,2)] swap_idAt [OF assms(1,2)])
qed

section \<open>Sifting up\<close>

declare bubbleUp.simps [simp del]

text \<open>
  The heap order holds everywhere except between \<open>n\<close> and its parent, and the children
  of \<open>n\<close> are already in order with the parent of \<open>n\<close>.
\<close>

definition up_inv :: "MinHeap \<Rightarrow> int \<Rightarrow> bool" where
  "up_inv heap n \<longleftrightarrow>
     (\<forall>p. 2 \<le> p \<and> p \<le> size_heap heap \<and> p \<noteq> n \<longrightarrow>
        priorityAt heap (p div 2) \<le> priorityAt heap p) \<and>
     (\<forall>c. 2 \<le> n \<and> c \<le> size_heap heap \<and> c div 2 = n \<longrightarrow>
        priorityAt heap (n div 2) \<le> priorityAt heap c)"

lemma parentIdx_not_root: "parentIdx heap n \<noteq> NOTHING \<Longrightarrow> 2 \<le> n"
  by (auto simp: parentIdx_def isValidIndex_def ROOT_INDEX_def split: if_splits)

lemma up_inv_swap:
  assumes n: "2 \<le> n" "n \<le> size_heap heap"
    and inv: "up_inv heap n"
    and gt: "priorityAt heap (n div 2) > priorityAt heap n"
  shows "up_inv (swap heap (n div 2) n) (n div 2)"
proof -
  let ?m = "n div 2"
  have mn: "?m < n" "1 \<le> ?m" "?m \<le> size_heap heap" using n by presburger+
  have v: "isValidIndex heap ?m" "isValidIndex heap n"
    using n mn by (simp_all add: valid_iff)
  note pr = swap_priorityAt [OF v]
  have A: "priorityAt heap (p div 2) \<le> priorityAt heap p"
    if "2 \<le> p" "p \<le> size_heap heap" "p \<noteq> n" for p
    using inv that by (simp add: up_inv_def)
  have B: "priorityAt heap ?m \<le> priorityAt heap c" if "c \<le> size_heap heap" "c div 2 = n" for c
    using inv that n by (simp add: up_inv_def)
  show ?thesis
    unfolding up_inv_def swap_size
  proof (intro conjI allI impI)
    fix p assume p: "2 \<le> p \<and> p \<le> size_heap heap \<and> p \<noteq> ?m"
    show "priorityAt (swap heap ?m n) (p div 2) \<le> priorityAt (swap heap ?m n) p"
    proof (cases "p = n")
      case True
      then show ?thesis using gt mn by (simp add: pr)
    next
      case False
      have pp: "p div 2 < p" using p by presburger
      consider "p div 2 = n" | "p div 2 = ?m" | "p div 2 \<noteq> n" "p div 2 \<noteq> ?m" by blast
      then show ?thesis
      proof cases
        case 1
        then show ?thesis using B [of p] p False mn by (simp add: pr)
      next
        case 2
        then show ?thesis using A [of p] p False mn gt by (simp add: pr)
      next
        case 3
        then show ?thesis using A [of p] p False by (simp add: pr)
      qed
    qed
  next
    fix c assume c: "2 \<le> ?m \<and> c \<le> size_heap heap \<and> c div 2 = ?m"
    have mm: "?m div 2 < ?m" using c by presburger
    have m_le: "priorityAt heap (?m div 2) \<le> priorityAt heap ?m"
      using A [of ?m] c mn n by simp
    have c_gt: "?m < c" using c by presburger
    show "priorityAt (swap heap ?m n) (?m div 2) \<le> priorityAt (swap heap ?m n) c"
    proof (cases "c = n")
      case True
      then show ?thesis using m_le mm mn by (simp add: pr)
    next
      case False
      have "priorityAt heap ?m \<le> priorityAt heap c"
        using A [of c] c c_gt False by simp
      then show ?thesis using m_le mm mn c_gt False by (simp add: pr)
    qed
  qed
qed

lemma up_inv_done:
  assumes "up_inv heap n"
    and "n = 1 \<or> (2 \<le> n \<and> priorityAt heap (n div 2) \<le> priorityAt heap n)"
  shows "heap_order heap"
  unfolding heap_order_iff
proof (intro allI impI)
  fix p assume p: "2 \<le> p \<and> p \<le> size_heap heap"
  show "priorityAt heap (p div 2) \<le> priorityAt heap p"
  proof (cases "p = n")
    case True
    then show ?thesis using assms(2) p by auto
  next
    case False
    then show ?thesis using assms(1) p by (simp add: up_inv_def)
  qed
qed

lemma bubbleUp_heap_order:
  "isValidIndex heap nodeIndex \<Longrightarrow> up_inv heap nodeIndex \<Longrightarrow>
     heap_order (bubbleUp heap nodeIndex)"
proof (induction heap nodeIndex rule: bubbleUp.induct)
  case (1 heap nodeIndex)
  have v: "1 \<le> nodeIndex" "nodeIndex \<le> size_heap heap"
    using "1.prems"(1) by (simp_all add: valid_iff)
  then have s: "size_heap heap \<noteq> 0" by simp
  show ?case
  proof (cases "parentIdx heap nodeIndex = NOTHING")
    case True
    then have "nodeIndex = 1"
      using "1.prems"(1) v by (simp add: parentIdx_def NOTHING_def split: if_splits)
    then have "heap_order heap" using up_inv_done [OF "1.prems"(2)] by simp
    then show ?thesis using True s by (simp add: bubbleUp.simps [of heap nodeIndex])
  next
    case False
    note pv = parentIdx_valid [OF False]
    have n2: "2 \<le> nodeIndex" by (rule parentIdx_not_root [OF False])
    show ?thesis
    proof (cases "priorityAt heap (parentIdx heap nodeIndex) > priorityAt heap nodeIndex")
      case gt: True
      let ?h = "swap heap (parentIdx heap nodeIndex) nodeIndex"
      have io: "indexOf ?h (idAt heap nodeIndex) = nodeIndex div 2"
        using pv by (simp add: swap_indexOf_second)
      have "heap_order (bubbleUp ?h (indexOf ?h (idAt heap nodeIndex)))"
      proof (rule "1.IH" [OF s False gt])
        show "isValidIndex ?h (indexOf ?h (idAt heap nodeIndex))"
          using pv io by simp
        show "up_inv ?h (indexOf ?h (idAt heap nodeIndex))"
          using up_inv_swap [OF n2 v(2) "1.prems"(2)] gt pv(2) io by simp
      qed
      then show ?thesis
        using False s gt by (simp add: bubbleUp.simps [of heap nodeIndex])
    next
      case le: False
      have "heap_order heap"
        using up_inv_done [OF "1.prems"(2)] le n2 pv(2) by simp
      then show ?thesis
        using False s le by (simp add: bubbleUp.simps [of heap nodeIndex])
    qed
  qed
qed

text \<open>What \<^verbatim>\<open>bubbleUp\<close> leaves alone, and the index consistency it keeps.\<close>

lemma bubbleUp_size [simp]: "size_heap (bubbleUp heap nodeIndex) = size_heap heap"
proof (induction heap nodeIndex rule: bubbleUp.induct)
  case (1 heap nodeIndex)
  then show ?case by (simp add: bubbleUp.simps [of heap nodeIndex])
qed

lemma bubbleUp_capacity [simp]: "capacity (bubbleUp heap nodeIndex) = capacity heap"
proof (induction heap nodeIndex rule: bubbleUp.induct)
  case (1 heap nodeIndex)
  then show ?case by (simp add: bubbleUp.simps [of heap nodeIndex])
qed

lemma bubbleUp_live_nodes: "live_nodes (bubbleUp heap nodeIndex) = live_nodes heap"
proof (induction heap nodeIndex rule: bubbleUp.induct)
  case (1 heap nodeIndex)
  show ?case
  proof (cases "size_heap heap \<noteq> 0 \<and> parentIdx heap nodeIndex \<noteq> NOTHING \<and>
      priorityAt heap (parentIdx heap nodeIndex) > priorityAt heap nodeIndex")
    case True
    then have "live_nodes (swap heap (parentIdx heap nodeIndex) nodeIndex) = live_nodes heap"
      using parentIdx_valid [of heap nodeIndex] by (simp add: swap_live_nodes)
    then show ?thesis
      using True "1.IH" by (simp add: bubbleUp.simps [of heap nodeIndex])
  next
    case False
    then show ?thesis by (auto simp: bubbleUp.simps [of heap nodeIndex])
  qed
qed

lemma bubbleUp_index_consistent:
  "index_consistent heap \<Longrightarrow> index_consistent (bubbleUp heap nodeIndex)"
proof (induction heap nodeIndex rule: bubbleUp.induct)
  case (1 heap nodeIndex)
  show ?case
  proof (cases "size_heap heap \<noteq> 0 \<and> parentIdx heap nodeIndex \<noteq> NOTHING \<and>
      priorityAt heap (parentIdx heap nodeIndex) > priorityAt heap nodeIndex")
    case True
    then have "index_consistent (swap heap (parentIdx heap nodeIndex) nodeIndex)"
      using parentIdx_valid [of heap nodeIndex] "1.prems" by (simp add: swap_index_consistent)
    then show ?thesis
      using True "1.IH" by (simp add: bubbleUp.simps [of heap nodeIndex])
  next
    case False
    then show ?thesis using "1.prems" by (auto simp: bubbleUp.simps [of heap nodeIndex])
  qed
qed

section \<open>Insertion\<close>

text \<open>
  The live part of the heap fits the allocated arrays: \<open>size\<close> is between \<open>0\<close> and
  \<open>capacity\<close>, and every live identifier is an index of \<^verbatim>\<open>indexMap\<close>.
\<close>

definition in_bounds :: "MinHeap \<Rightarrow> bool" where
  "in_bounds heap \<longleftrightarrow>
     0 \<le> size_heap heap \<and> size_heap heap \<le> capacity heap \<and>
     (\<forall>p\<in>{ROOT_INDEX..size_heap heap}. 0 \<le> idAt heap p \<and> idAt heap p < capacity heap)"

text \<open>The preconditions of \<^verbatim>\<open>insert\<close>, as its comment in the source states them.\<close>

definition insert_pre :: "MinHeap \<Rightarrow> int \<Rightarrow> bool" where
  "insert_pre heap i \<longleftrightarrow>
     (\<forall>p\<in>{ROOT_INDEX..size_heap heap}. idAt heap p \<noteq> i) \<and>
     0 \<le> i \<and> i < capacity heap \<and> size_heap heap < capacity heap"

text \<open>The state of \<^verbatim>\<open>insert\<close> just before it calls \<^verbatim>\<open>bubbleUp\<close>.\<close>

definition appended :: "MinHeap \<Rightarrow> int \<Rightarrow> int \<Rightarrow> MinHeap" where
  "appended heap p i =
     heap\<lparr>arr := (arr heap)(size_heap heap + 1 := \<lparr>priority = p, id_node = i\<rparr>),
          indexMap := (indexMap heap)(i := size_heap heap + 1),
          size_heap := size_heap heap + 1\<rparr>"

lemma insert_heap_appended:
  "insert_heap heap p i = bubbleUp (appended heap p i) (size_heap heap + 1)"
  by (simp add: insert_heap_def appended_def Let_def)

lemma appended_fields [simp]:
  "size_heap (appended heap p i) = size_heap heap + 1"
  "capacity (appended heap p i) = capacity heap"
  "priorityAt (appended heap p i) k = (if k = size_heap heap + 1 then p else priorityAt heap k)"
  "idAt (appended heap p i) k = (if k = size_heap heap + 1 then i else idAt heap k)"
  "indexOf (appended heap p i) x = (if x = i then size_heap heap + 1 else indexOf heap x)"
  by (simp_all add: appended_def priorityAt_def idAt_def indexOf_def)

lemma appended_live_nodes:
  assumes "0 \<le> size_heap heap"
  shows "live_nodes (appended heap p i) = insert \<lparr>priority = p, id_node = i\<rparr> (live_nodes heap)"
proof -
  have "{ROOT_INDEX..size_heap heap + 1} = insert (size_heap heap + 1) {ROOT_INDEX..size_heap heap}"
    using assms by (auto simp: ROOT_INDEX_def)
  moreover have "arr (appended heap p i) k = arr heap k" if "k \<in> {ROOT_INDEX..size_heap heap}" for k
    using that by (simp add: appended_def)
  moreover have "arr (appended heap p i) (size_heap heap + 1) = \<lparr>priority = p, id_node = i\<rparr>"
    by (simp add: appended_def)
  ultimately show ?thesis
    by (simp add: live_nodes_def)
qed

lemma appended_up_inv:
  assumes "heap_order heap" "0 \<le> size_heap heap"
  shows "up_inv (appended heap p i) (size_heap heap + 1)"
  unfolding up_inv_def
proof (intro conjI allI impI)
  fix q
  assume q: "2 \<le> q \<and> q \<le> size_heap (appended heap p i) \<and> q \<noteq> size_heap heap + 1"
  then have "q div 2 \<noteq> size_heap heap + 1" by simp presburger
  moreover have "priorityAt heap (q div 2) \<le> priorityAt heap q"
    using assms(1) q by (simp add: heap_order_iff)
  ultimately show "priorityAt (appended heap p i) (q div 2) \<le> priorityAt (appended heap p i) q"
    using q by simp
next
  fix c
  assume "2 \<le> size_heap heap + 1 \<and> c \<le> size_heap (appended heap p i) \<and>
    c div 2 = size_heap heap + 1"
  then have False by simp presburger
  then show "priorityAt (appended heap p i) ((size_heap heap + 1) div 2)
      \<le> priorityAt (appended heap p i) c" ..
qed

lemma insert_heap_size [simp]: "size_heap (insert_heap heap p i) = size_heap heap + 1"
  by (simp add: insert_heap_appended)

lemma insert_heap_capacity [simp]: "capacity (insert_heap heap p i) = capacity heap"
  by (simp add: insert_heap_appended)

lemma insert_heap_live_nodes:
  "0 \<le> size_heap heap \<Longrightarrow>
     live_nodes (insert_heap heap p i) = insert \<lparr>priority = p, id_node = i\<rparr> (live_nodes heap)"
  by (simp add: insert_heap_appended bubbleUp_live_nodes appended_live_nodes)

lemma insert_heap_order:
  assumes "heap_order heap" "0 \<le> size_heap heap"
  shows "heap_order (insert_heap heap p i)"
  unfolding insert_heap_appended
proof (rule bubbleUp_heap_order)
  show "isValidIndex (appended heap p i) (size_heap heap + 1)"
    using assms(2) by (simp add: valid_iff)
  show "up_inv (appended heap p i) (size_heap heap + 1)"
    by (rule appended_up_inv [OF assms])
qed

lemma insert_heap_index_consistent:
  assumes "index_consistent heap" "\<forall>q\<in>{ROOT_INDEX..size_heap heap}. idAt heap q \<noteq> i"
  shows "index_consistent (insert_heap heap p i)"
  unfolding insert_heap_appended
proof (rule bubbleUp_index_consistent)
  show "index_consistent (appended heap p i)"
    using assms by (auto simp: index_consistent_iff ROOT_INDEX_def)
qed

lemma live_ids_in_bounds:
  "in_bounds heap \<longleftrightarrow>
     0 \<le> size_heap heap \<and> size_heap heap \<le> capacity heap \<and>
     (\<forall>n\<in>live_nodes heap. 0 \<le> id_node n \<and> id_node n < capacity heap)"
  by (auto simp: in_bounds_def live_nodes_def idAt_def)

lemma insert_heap_in_bounds:
  assumes "in_bounds heap" "insert_pre heap i"
  shows "in_bounds (insert_heap heap p i)"
  using assms
  by (simp add: live_ids_in_bounds insert_heap_live_nodes insert_pre_def)

section \<open>Sifting down\<close>

lemma leftIdx_eq:
  "isValidIndex heap q \<Longrightarrow>
     leftIdx heap q = (if 2 * q \<le> size_heap heap then 2 * q else NOTHING)"
  by (simp add: leftIdx_def Let_def valid_iff)

lemma rightIdx_eq:
  "isValidIndex heap q \<Longrightarrow>
     rightIdx heap q = (if 2 * q + 1 \<le> size_heap heap then 2 * q + 1 else NOTHING)"
  by (simp add: rightIdx_def Let_def valid_iff)

text \<open>
  What one pass of the loop does when the tracked node is at the valid position \<open>q\<close> and
  \<^verbatim>\<open>left\<close>, \<^verbatim>\<open>right\<close> are its children: it stops when no child is smaller, and
  otherwise swaps the node with a smallest child.
\<close>

lemma bubbleDown_body_cases:
  assumes q: "isValidIndex heap q" and io: "indexOf heap i = q"
    and l: "leftIdx heap q \<noteq> NOTHING"
  obtains (break)
      "bubbleDown_body heap i (leftIdx heap q) (rightIdx heap q) = Break"
      "priorityAt heap q \<le> priorityAt heap (2 * q)"
      "2 * q + 1 \<le> size_heap heap \<Longrightarrow> priorityAt heap q \<le> priorityAt heap (2 * q + 1)"
    | (swapped) c where
      "c = 2 * q \<or> c = 2 * q + 1" "c \<le> size_heap heap"
      "bubbleDown_body heap i (leftIdx heap q) (rightIdx heap q) = Swapped (swap heap q c)"
      "priorityAt heap c < priorityAt heap q"
      "priorityAt heap c \<le> priorityAt heap (2 * q)"
      "2 * q + 1 \<le> size_heap heap \<Longrightarrow> priorityAt heap c \<le> priorityAt heap (2 * q + 1)"
proof -
  have q1: "1 \<le> q" using q by (simp add: valid_iff)
  have l2: "2 * q \<le> size_heap heap" "leftIdx heap q = 2 * q"
    using l by (simp_all add: leftIdx_eq [OF q] split: if_splits)
  show thesis
  proof (cases "2 * q + 1 \<le> size_heap heap")
    case False
    then have r: "rightIdx heap q = NOTHING" by (simp add: rightIdx_eq [OF q])
    show thesis
    proof (cases "priorityAt heap q > priorityAt heap (2 * q)")
      case True
      show thesis
      proof (rule swapped [of "2 * q"])
        show "bubbleDown_body heap i (leftIdx heap q) (rightIdx heap q) = Swapped (swap heap q (2 * q))"
          using True by (simp add: bubbleDown_body_def r l2 io)
      qed (use True False l2 in simp_all)
    next
      case le: False
      show thesis
      proof (rule break)
        show "bubbleDown_body heap i (leftIdx heap q) (rightIdx heap q) = Break"
          using le by (simp add: bubbleDown_body_def r l2 io)
      qed (use le False in simp_all)
    qed
  next
    case True
    then have r: "rightIdx heap q = 2 * q + 1" "rightIdx heap q \<noteq> NOTHING"
      using q1 by (simp_all add: rightIdx_eq [OF q] NOTHING_def)
    let ?p = "priorityAt heap q" and ?pl = "priorityAt heap (2 * q)"
      and ?pr = "priorityAt heap (2 * q + 1)"
    have body: "bubbleDown_body heap i (leftIdx heap q) (rightIdx heap q) =
      (if ?p > ?pl \<and> ?p > ?pr then
         (if ?pl < ?pr then Swapped (swap heap q (2 * q)) else Swapped (swap heap q (2 * q + 1)))
       else if ?p > ?pl then Swapped (swap heap q (2 * q))
       else if ?p > ?pr then Swapped (swap heap q (2 * q + 1))
       else Break)"
      using r(2) by (simp add: bubbleDown_body_def Let_def l2 r(1) io)
    consider (both_l) "?p > ?pl" "?p > ?pr" "?pl < ?pr"
      | (both_r) "?p > ?pl" "?p > ?pr" "\<not> ?pl < ?pr"
      | (only_l) "?p > ?pl" "\<not> ?p > ?pr"
      | (only_r) "\<not> ?p > ?pl" "?p > ?pr"
      | (none) "\<not> ?p > ?pl" "\<not> ?p > ?pr"
      by linarith
    then show thesis
    proof cases
      case both_l
      show thesis
        by (rule swapped [of "2 * q"]) (use both_l body l2 in simp_all)
    next
      case both_r
      show thesis
        by (rule swapped [of "2 * q + 1"]) (use both_r body True in simp_all)
    next
      case only_l
      show thesis
        by (rule swapped [of "2 * q"]) (use only_l body l2 in simp_all)
    next
      case only_r
      show thesis
        by (rule swapped [of "2 * q + 1"]) (use only_r body True in simp_all)
    next
      case none
      show thesis
        by (rule break) (use none body in simp_all)
    qed
  qed
qed

text \<open>
  The heap order holds everywhere except between \<open>q\<close> and its children, and the children
  of \<open>q\<close> are already in order with the parent of \<open>q\<close>.
\<close>

definition down_inv :: "MinHeap \<Rightarrow> int \<Rightarrow> bool" where
  "down_inv heap q \<longleftrightarrow>
     (\<forall>p. 2 \<le> p \<and> p \<le> size_heap heap \<and> p div 2 \<noteq> q \<longrightarrow>
        priorityAt heap (p div 2) \<le> priorityAt heap p) \<and>
     (\<forall>c. 2 \<le> q \<and> c \<le> size_heap heap \<and> c div 2 = q \<longrightarrow>
        priorityAt heap (q div 2) \<le> priorityAt heap c)"

lemma down_inv_done:
  assumes inv: "down_inv heap q"
    and l: "2 * q \<le> size_heap heap \<Longrightarrow> priorityAt heap q \<le> priorityAt heap (2 * q)"
    and r: "2 * q + 1 \<le> size_heap heap \<Longrightarrow> priorityAt heap q \<le> priorityAt heap (2 * q + 1)"
  shows "heap_order heap"
  unfolding heap_order_iff
proof (intro allI impI)
  fix p assume p: "2 \<le> p \<and> p \<le> size_heap heap"
  show "priorityAt heap (p div 2) \<le> priorityAt heap p"
  proof (cases "p div 2 = q")
    case True
    then have "p = 2 * q \<or> p = 2 * q + 1" by presburger
    then show ?thesis using l r p True by auto
  next
    case False
    then show ?thesis using inv p by (simp add: down_inv_def)
  qed
qed

lemma down_inv_swap:
  assumes q: "1 \<le> q" and c: "c = 2 * q \<or> c = 2 * q + 1" "c \<le> size_heap heap"
    and inv: "down_inv heap q"
    and lt: "priorityAt heap c < priorityAt heap q"
    and cl: "priorityAt heap c \<le> priorityAt heap (2 * q)"
    and cr: "2 * q + 1 \<le> size_heap heap \<Longrightarrow> priorityAt heap c \<le> priorityAt heap (2 * q + 1)"
  shows "down_inv (swap heap q c) c"
proof -
  have qc: "q < c" "c div 2 = q" "q \<le> size_heap heap" "2 \<le> c"
    using q c by presburger+
  have v: "isValidIndex heap q" "isValidIndex heap c"
    using q c qc by (simp_all add: valid_iff)
  note pr = swap_priorityAt [OF v]
  have A: "priorityAt heap (p div 2) \<le> priorityAt heap p"
    if "2 \<le> p" "p \<le> size_heap heap" "p div 2 \<noteq> q" for p
    using inv that by (simp add: down_inv_def)
  have B: "priorityAt heap (q div 2) \<le> priorityAt heap d"
    if "2 \<le> q" "d \<le> size_heap heap" "d div 2 = q" for d
    using inv that by (simp add: down_inv_def)
  have C: "priorityAt heap c \<le> priorityAt heap d" if "d \<le> size_heap heap" "d div 2 = q" for d
  proof -
    have "d = 2 * q \<or> d = 2 * q + 1" using that(2) by presburger
    then show ?thesis using cl cr that(1) by auto
  qed
  show ?thesis
    unfolding down_inv_def swap_size
  proof (intro conjI allI impI)
    fix p assume p: "2 \<le> p \<and> p \<le> size_heap heap \<and> p div 2 \<noteq> c"
    have pp: "p div 2 < p" using p by presburger
    consider "p = c" | "p \<noteq> c" "p div 2 = q" | "p = q" | "p \<noteq> c" "p \<noteq> q" "p div 2 \<noteq> q"
      by blast
    then show "priorityAt (swap heap q c) (p div 2) \<le> priorityAt (swap heap q c) p"
    proof cases
      case 1
      then show ?thesis using qc lt by (simp add: pr)
    next
      case 2
      then have "p \<noteq> q" using pp by simp
      then show ?thesis using 2 C [of p] p qc by (simp add: pr)
    next
      case 3
      then have "q div 2 \<noteq> c" "q div 2 \<noteq> q" using pp qc by simp_all
      then show ?thesis using 3 B [of c] p c(2) qc by (simp add: pr)
    next
      case 4
      then show ?thesis using A [of p] p by (simp add: pr)
    qed
  next
    fix d assume d: "2 \<le> c \<and> d \<le> size_heap heap \<and> d div 2 = c"
    then have dd: "d \<noteq> c" "d \<noteq> q" "2 \<le> d" using qc by presburger+
    have "priorityAt heap c \<le> priorityAt heap d"
      using A [of d] d dd qc by simp
    then show "priorityAt (swap heap q c) (c div 2) \<le> priorityAt (swap heap q c) d"
      using dd qc by (simp add: pr)
  qed
qed

text \<open>What a run of the loop leaves alone.\<close>

definition same_frame :: "MinHeap \<Rightarrow> MinHeap \<Rightarrow> bool" where
  "same_frame heap heap' \<longleftrightarrow>
     size_heap heap' = size_heap heap \<and> capacity heap' = capacity heap \<and>
     live_nodes heap' = live_nodes heap \<and>
     (\<forall>x. x \<notin> live_ids heap \<longrightarrow> indexOf heap' x = indexOf heap x)"

lemma same_frame_refl: "same_frame heap heap"
  by (simp add: same_frame_def)

lemma same_frame_trans:
  "same_frame h1 h2 \<Longrightarrow> same_frame h2 h3 \<Longrightarrow> same_frame h1 h3"
  by (simp add: same_frame_def live_ids_nodes)

lemma swap_same_frame:
  assumes "isValidIndex heap i" "isValidIndex heap j"
  shows "same_frame heap (swap heap i j)"
proof -
  have "idAt heap i \<in> live_ids heap" "idAt heap j \<in> live_ids heap"
    using assms by (simp_all add: live_ids_def isValidIndex_def)
  then show ?thesis
    by (auto simp: same_frame_def swap_live_nodes [OF assms] swap_indexOf [OF assms])
qed

lemma bubbleDown_loop_correct:
  assumes "index_consistent heap" "isValidIndex heap q" "idAt heap q = i"
  shows "\<exists>heap'. bubbleDown_loop heap i (leftIdx heap q) (rightIdx heap q) = Some heap' \<and>
           same_frame heap heap' \<and> index_consistent heap' \<and>
           (down_inv heap q \<longrightarrow> heap_order heap')"
  using assms
proof (induction "nat (size_heap heap - q)" arbitrary: heap q rule: less_induct)
  case less
  have q: "1 \<le> q" "q \<le> size_heap heap" using less.prems(2) by (simp_all add: valid_iff)
  have io: "indexOf heap i = q"
    using less.prems q by (auto simp: index_consistent_iff)
  show ?case
  proof (cases "leftIdx heap q = NOTHING")
    case True
    then have "\<not> 2 * q \<le> size_heap heap"
      using q by (auto simp: leftIdx_eq [OF less.prems(2)] NOTHING_def split: if_splits)
    then have "down_inv heap q \<longrightarrow> heap_order heap"
      using down_inv_done [of heap q] by simp
    moreover have "bubbleDown_loop heap i (leftIdx heap q) (rightIdx heap q) = Some heap"
      using True by (simp add: bubbleDown_loop.simps [of heap i])
    ultimately show ?thesis
      using less.prems(1) same_frame_refl by blast
  next
    case False
    from less.prems(2) io False show ?thesis
    proof (cases rule: bubbleDown_body_cases)
      case break
      have "down_inv heap q \<longrightarrow> heap_order heap"
        using down_inv_done [of heap q] break(2,3) by simp
      moreover have "bubbleDown_loop heap i (leftIdx heap q) (rightIdx heap q) = Some heap"
        using False break(1) by (simp add: bubbleDown_loop.simps [of heap i])
      ultimately show ?thesis
        using less.prems(1) same_frame_refl by blast
    next
      case (swapped c)
      let ?h = "swap heap q c"
      have qc: "q < c" "1 \<le> c" using q swapped(1) by auto
      have vc: "isValidIndex heap c" using qc swapped(2) by (simp add: valid_iff)
      have ne: "idAt heap c \<noteq> i"
        using index_consistent_inj [OF less.prems(1), of c q] qc q swapped(2) less.prems(3)
        by auto
      have io': "indexOf ?h i = c"
        using ne less.prems(3) by (simp add: swap_indexOf [OF less.prems(2) vc])
      have step: "bubbleDown_loop heap i (leftIdx heap q) (rightIdx heap q) =
          bubbleDown_loop ?h i (leftIdx ?h c) (rightIdx ?h c)"
        using False swapped(3) io' by (simp add: bubbleDown_loop.simps [of heap i])
      have "\<exists>heap'. bubbleDown_loop ?h i (leftIdx ?h c) (rightIdx ?h c) = Some heap' \<and>
           same_frame ?h heap' \<and> index_consistent heap' \<and>
           (down_inv ?h c \<longrightarrow> heap_order heap')"
      proof (rule less.hyps)
        show "nat (size_heap ?h - c) < nat (size_heap heap - q)"
          using qc swapped(2) by simp
        show "index_consistent ?h"
          by (rule swap_index_consistent [OF less.prems(2) vc less.prems(1)])
        show "isValidIndex ?h c" using vc by simp
        show "idAt ?h c = i"
          using less.prems(3) by (simp add: swap_idAt [OF less.prems(2) vc])
      qed
      then obtain heap' where h':
        "bubbleDown_loop ?h i (leftIdx ?h c) (rightIdx ?h c) = Some heap'"
        "same_frame ?h heap'" "index_consistent heap'" "down_inv ?h c \<longrightarrow> heap_order heap'"
        by blast
      have "down_inv heap q \<longrightarrow> down_inv ?h c"
        using down_inv_swap [OF q(1) swapped(1,2) _ swapped(4,5,6)] by blast
      moreover have "same_frame heap heap'"
        using same_frame_trans [OF swap_same_frame [OF less.prems(2) vc] h'(2)] .
      ultimately show ?thesis
        using step h' by simp
    qed
  qed
qed

lemma bubbleDown_correct:
  assumes "index_consistent heap"
  shows "\<exists>heap'. bubbleDown heap = Some heap' \<and> same_frame heap heap' \<and>
           index_consistent heap' \<and> (down_inv heap 1 \<longrightarrow> heap_order heap')"
proof (cases "size_heap heap > 0")
  case True
  then have "isValidIndex heap 1" by (simp add: valid_iff)
  from bubbleDown_loop_correct [OF assms this refl] show ?thesis
    using True by (simp add: bubbleDown_def ROOT_INDEX_def)
next
  case False
  then have "heap_order heap" by (simp add: heap_order_iff)
  then show ?thesis
    using False assms same_frame_refl by (simp add: bubbleDown_def)
qed

section \<open>Extraction of the minimum\<close>

text \<open>The state of \<^verbatim>\<open>extractMin\<close> just before it calls \<^verbatim>\<open>bubbleDown\<close>.\<close>

definition detached :: "MinHeap \<Rightarrow> MinHeap" where
  "detached heap =
     (let heap1 = swap heap ROOT_INDEX (size_heap heap)
      in heap1\<lparr>indexMap := (indexMap heap1)(idAt heap1 (size_heap heap1) := 0),
               size_heap := size_heap heap1 - 1\<rparr>)"

lemma extractMin_detached:
  "extractMin heap =
     (case bubbleDown (detached heap) of
        None \<Rightarrow> None
      | Some heap4 \<Rightarrow> Some (nodeAt (swap heap ROOT_INDEX (size_heap heap)) (size_heap heap), heap4))"
  by (simp add: extractMin_def detached_def Let_def cong: option.case_cong)

lemma detached_fields:
  assumes "0 < size_heap heap"
  shows "size_heap (detached heap) = size_heap heap - 1"
    and "capacity (detached heap) = capacity heap"
    and "arr (detached heap) k =
      (if k = size_heap heap then arr heap 1 else if k = 1 then arr heap (size_heap heap)
       else arr heap k)"
    and "indexOf (detached heap) x =
      (if x = idAt heap 1 then 0 else if x = idAt heap (size_heap heap) then 1
       else indexOf heap x)"
proof -
  have v: "isValidIndex heap 1" "isValidIndex heap (size_heap heap)"
    using assms by (simp_all add: valid_iff)
  show "size_heap (detached heap) = size_heap heap - 1"
    and "capacity (detached heap) = capacity heap"
    by (simp_all add: detached_def Let_def)
  show "arr (detached heap) k =
      (if k = size_heap heap then arr heap 1 else if k = 1 then arr heap (size_heap heap)
       else arr heap k)"
    by (simp add: detached_def Let_def ROOT_INDEX_def swap_arr [OF v])
  have "indexOf (detached heap) x =
      (if x = idAt (swap heap 1 (size_heap heap)) (size_heap heap) then 0
       else indexOf (swap heap 1 (size_heap heap)) x)"
    by (simp add: detached_def Let_def ROOT_INDEX_def indexOf_def)
  then show "indexOf (detached heap) x =
      (if x = idAt heap 1 then 0 else if x = idAt heap (size_heap heap) then 1
       else indexOf heap x)"
    by (simp add: swap_idAt [OF v] swap_indexOf [OF v])
qed

lemma saved_node:
  "0 < size_heap heap \<Longrightarrow>
     nodeAt (swap heap ROOT_INDEX (size_heap heap)) (size_heap heap) = getMin heap"
  by (simp add: nodeAt_def getMin_def ROOT_INDEX_def swap_arr valid_iff)

lemma detached_index_consistent:
  assumes "index_consistent heap" "0 < size_heap heap"
  shows "index_consistent (detached heap)"
  unfolding index_consistent_iff
proof (intro allI impI)
  fix p assume "1 \<le> p \<and> p \<le> size_heap (detached heap)"
  then have p: "1 \<le> p" "p < size_heap heap" by (simp_all add: detached_fields(1) [OF assms(2)])
  have c: "indexOf heap (idAt heap r) = r" if "1 \<le> r" "r \<le> size_heap heap" for r
    using assms(1) that by (simp add: index_consistent_iff)
  note inj = index_consistent_inj [OF assms(1)]
  show "indexOf (detached heap) (idAt (detached heap) p) = p"
  proof (cases "p = 1")
    case True
    have "idAt heap (size_heap heap) \<noteq> idAt heap 1"
      using inj [of "size_heap heap" 1] p True by auto
    then show ?thesis
      using True p by (simp add: idAt_def detached_fields [OF assms(2)])
  next
    case False
    have "idAt heap p \<noteq> idAt heap 1" "idAt heap p \<noteq> idAt heap (size_heap heap)"
      using inj [of p 1] inj [of p "size_heap heap"] p False by auto
    then show ?thesis
      using False p c [of p] detached_fields(4) [OF assms(2), of "idAt heap p"]
      by (simp add: idAt_def detached_fields(3) [OF assms(2)])
  qed
qed

lemma detached_live_nodes:
  assumes "0 < size_heap heap"
  shows "live_nodes heap = insert (getMin heap) (live_nodes (detached heap))"
proof -
  let ?n = "size_heap heap"
  have v: "isValidIndex heap 1" "isValidIndex heap ?n"
    using assms by (simp_all add: valid_iff)
  have e: "arr (swap heap 1 ?n) ?n = arr heap 1"
    by (simp add: swap_arr [OF v])
  have "live_nodes heap = arr (swap heap 1 ?n) ` {ROOT_INDEX..?n}"
    using swap_live_nodes [OF v] by (simp add: live_nodes_def)
  also have "{ROOT_INDEX..?n} = insert ?n {ROOT_INDEX..?n - 1}"
    using assms by (auto simp: ROOT_INDEX_def)
  also have "arr (swap heap 1 ?n) ` insert ?n {ROOT_INDEX..?n - 1} =
      insert (arr heap 1) (arr (swap heap 1 ?n) ` {ROOT_INDEX..?n - 1})"
    by (simp only: image_insert e)
  also have "arr (swap heap 1 ?n) ` {ROOT_INDEX..?n - 1} = arr (detached heap) ` {ROOT_INDEX..?n - 1}"
  proof (rule image_cong [OF refl])
    fix k assume "k \<in> {ROOT_INDEX..?n - 1}"
    then show "arr (swap heap 1 ?n) k = arr (detached heap) k"
      by (simp add: detached_fields(3) [OF assms] swap_arr [OF v])
  qed
  finally show ?thesis
    by (simp add: live_nodes_def getMin_def ROOT_INDEX_def detached_fields(1) [OF assms])
qed

lemma detached_not_live:
  assumes "index_consistent heap" "0 < size_heap heap"
  shows "id_node (getMin heap) \<notin> live_ids (detached heap)"
proof
  assume "id_node (getMin heap) \<in> live_ids (detached heap)"
  then obtain p where p: "1 \<le> p" "p < size_heap heap" "idAt (detached heap) p = idAt heap 1"
    by (auto simp: live_ids_def detached_fields(1) [OF assms(2)] getMin_def ROOT_INDEX_def idAt_def)
  note inj = index_consistent_inj [OF assms(1)]
  show False
  proof (cases "p = 1")
    case True
    then show ?thesis
      using p inj [of "size_heap heap" 1] by (simp add: idAt_def detached_fields(3) [OF assms(2)])
  next
    case False
    then show ?thesis
      using p inj [of p 1] by (simp add: idAt_def detached_fields(3) [OF assms(2)])
  qed
qed

lemma detached_down_inv:
  assumes "heap_order heap" "0 < size_heap heap"
  shows "down_inv (detached heap) 1"
  unfolding down_inv_def
proof (intro conjI allI impI)
  fix p assume "2 \<le> p \<and> p \<le> size_heap (detached heap) \<and> p div 2 \<noteq> 1"
  then have p: "2 \<le> p" "p < size_heap heap" "p div 2 \<noteq> 1"
    by (simp_all add: detached_fields(1) [OF assms(2)])
  then have "p div 2 \<noteq> size_heap heap" "p \<noteq> 1" "p \<noteq> size_heap heap" by presburger+
  moreover have "priorityAt heap (p div 2) \<le> priorityAt heap p"
    using assms(1) p by (simp add: heap_order_iff)
  ultimately show "priorityAt (detached heap) (p div 2) \<le> priorityAt (detached heap) p"
    using p(3) by (simp add: priorityAt_def detached_fields(3) [OF assms(2)])
qed simp

lemma extractMin_correct:
  assumes "index_consistent heap" "0 < size_heap heap"
  shows "\<exists>heap'. extractMin heap = Some (getMin heap, heap') \<and>
           size_heap heap' = size_heap heap - 1 \<and> capacity heap' = capacity heap \<and>
           index_consistent heap' \<and>
           live_nodes heap = insert (getMin heap) (live_nodes heap') \<and>
           id_node (getMin heap) \<notin> live_ids heap' \<and>
           indexOf heap' (id_node (getMin heap)) = 0 \<and>
           (heap_order heap \<longrightarrow> heap_order heap')"
proof -
  from bubbleDown_correct [OF detached_index_consistent [OF assms]]
  obtain heap' where h': "bubbleDown (detached heap) = Some heap'"
    "same_frame (detached heap) heap'" "index_consistent heap'"
    "down_inv (detached heap) 1 \<longrightarrow> heap_order heap'"
    by blast
  have "extractMin heap = Some (getMin heap, heap')"
    using h'(1) by (simp add: extractMin_detached saved_node [OF assms(2)])
  moreover have "size_heap heap' = size_heap heap - 1" "capacity heap' = capacity heap"
    using h'(2) by (simp_all add: same_frame_def detached_fields [OF assms(2)])
  moreover have "live_nodes heap = insert (getMin heap) (live_nodes heap')"
    using h'(2) detached_live_nodes [OF assms(2)] by (simp add: same_frame_def)
  moreover have "id_node (getMin heap) \<notin> live_ids heap'"
    using h'(2) detached_not_live [OF assms] by (simp add: same_frame_def live_ids_nodes)
  moreover have "indexOf heap' (id_node (getMin heap)) = 0"
  proof -
    have "indexOf heap' (id_node (getMin heap)) = indexOf (detached heap) (id_node (getMin heap))"
      using h'(2) detached_not_live [OF assms] by (simp add: same_frame_def)
    then show ?thesis
      by (simp add: detached_fields(4) [OF assms(2)] getMin_def ROOT_INDEX_def idAt_def)
  qed
  moreover have "heap_order heap \<longrightarrow> heap_order heap'"
    using h'(4) detached_down_inv [OF _ assms(2)] by blast
  ultimately show ?thesis
    using h'(3) by blast
qed

lemma root_minimal:
  assumes "heap_order heap"
  shows "1 \<le> p \<Longrightarrow> p \<le> size_heap heap \<Longrightarrow> priorityAt heap 1 \<le> priorityAt heap p"
proof (induction "nat p" arbitrary: p rule: less_induct)
  case less
  show ?case
  proof (cases "p = 1")
    case True
    then show ?thesis by simp
  next
    case False
    then have p: "2 \<le> p" "1 \<le> p div 2" "p div 2 \<le> size_heap heap" "p div 2 < p"
      using less.prems by presburger+
    then have m: "nat (p div 2) < nat p" by simp
    have "priorityAt heap 1 \<le> priorityAt heap (p div 2)"
      by (rule less.hyps [OF m p(2,3)])
    also have "\<dots> \<le> priorityAt heap p"
      using assms p(1) less.prems(2) by (simp add: heap_order_iff)
    finally show ?thesis .
  qed
qed

lemma getMin_minimal:
  assumes "heap_order heap" "n \<in> live_nodes heap"
  shows "priority (getMin heap) \<le> priority n"
proof -
  from assms(2) obtain p where "1 \<le> p" "p \<le> size_heap heap" "n = arr heap p"
    by (auto simp: live_nodes_def ROOT_INDEX_def)
  then show ?thesis
    using root_minimal [OF assms(1), of p] by (simp add: getMin_def priorityAt_def ROOT_INDEX_def)
qed

lemma extractMin_in_bounds:
  assumes "in_bounds heap" "0 < size_heap heap" "extractMin heap = Some (n, heap')"
    "size_heap heap' = size_heap heap - 1" "capacity heap' = capacity heap"
    "live_nodes heap = insert n (live_nodes heap')"
  shows "in_bounds heap'"
  using assms by (auto simp: live_ids_in_bounds)

section \<open>Sequences of operations\<close>

text \<open>
  The invariants of the data model: the live part fits the arrays, the index map sends
  the identifier of every live position back to that position (I3), no two live
  positions hold the same identifier (I4), and the heap order (I1). Completeness (I2) is
  built into \<^verbatim>\<open>isValidIndex\<close>: the live positions are \<open>1..size\<close>.
\<close>

definition heap_inv :: "MinHeap \<Rightarrow> bool" where
  "heap_inv heap \<longleftrightarrow>
     in_bounds heap \<and> index_consistent heap \<and> ids_unique heap \<and> heap_order heap"

datatype operation = Insert int int | ExtractMin | DecreasePriority int int

text \<open>
  The preconditions the source states for each call: those of \<^verbatim>\<open>insert\<close>, a non-empty
  heap for \<^verbatim>\<open>extractMin\<close>, none for \<^verbatim>\<open>decreasePriority\<close>.
\<close>

fun precondition :: "MinHeap \<Rightarrow> operation \<Rightarrow> bool" where
  "precondition heap (Insert p i) = insert_pre heap i"
| "precondition heap ExtractMin = (0 < size_heap heap)"
| "precondition heap (DecreasePriority i p) = True"

text \<open>The heap after one call; \<open>None\<close> when the call does not return.\<close>

fun perform :: "MinHeap \<Rightarrow> operation \<Rightarrow> MinHeap option" where
  "perform heap (Insert p i) = Some (insert_heap heap p i)"
| "perform heap ExtractMin = map_option snd (extractMin heap)"
| "perform heap (DecreasePriority i p) = Some (snd (decreasePriority heap i p))"

fun run :: "MinHeap \<Rightarrow> operation list \<Rightarrow> MinHeap option" where
  "run heap [] = Some heap"
| "run heap (x # xs) = (case perform heap x of None \<Rightarrow> None | Some heap' \<Rightarrow> run heap' xs)"

text \<open>Every call of the sequence is made in a state that satisfies its preconditions.\<close>

fun admissible :: "MinHeap \<Rightarrow> operation list \<Rightarrow> bool" where
  "admissible heap [] = True"
| "admissible heap (x # xs) =
     (precondition heap x \<and>
      (case perform heap x of None \<Rightarrow> True | Some heap' \<Rightarrow> admissible heap' xs))"

lemma newHeap_inv: "0 \<le> c \<Longrightarrow> heap_inv (newHeap c a m)"
  by (simp add: heap_inv_def newHeap_def in_bounds_def index_consistent_def ids_unique_def
      heap_order_def ROOT_INDEX_def)

lemma perform_inv:
  assumes "heap_inv heap" "precondition heap x"
  shows "\<exists>heap'. perform heap x = Some heap' \<and> heap_inv heap'"
proof (cases x)
  case (Insert p i)
  have pre: "insert_pre heap i" using assms(2) Insert by simp
  have inv: "in_bounds heap" "index_consistent heap" "heap_order heap"
    using assms(1) by (simp_all add: heap_inv_def)
  have s: "0 \<le> size_heap heap" using inv(1) by (simp add: in_bounds_def)
  have "in_bounds (insert_heap heap p i)"
    by (rule insert_heap_in_bounds [OF inv(1) pre])
  moreover have "index_consistent (insert_heap heap p i)"
    using pre by (intro insert_heap_index_consistent [OF inv(2)]) (simp add: insert_pre_def)
  moreover have "heap_order (insert_heap heap p i)"
    by (rule insert_heap_order [OF inv(3) s])
  ultimately have "heap_inv (insert_heap heap p i)"
    by (simp add: heap_inv_def index_consistent_unique)
  then show ?thesis using Insert by simp
next
  case ExtractMin
  then have s: "0 < size_heap heap" using assms(2) by simp
  have ic: "index_consistent heap" using assms(1) by (simp add: heap_inv_def)
  from extractMin_correct [OF ic s] obtain heap' where h':
    "extractMin heap = Some (getMin heap, heap')"
    "size_heap heap' = size_heap heap - 1" "capacity heap' = capacity heap"
    "index_consistent heap'" "live_nodes heap = insert (getMin heap) (live_nodes heap')"
    "heap_order heap \<longrightarrow> heap_order heap'"
    by blast
  have "in_bounds heap'"
    using extractMin_in_bounds [OF _ s h'(1,2,3,5)] assms(1) by (simp add: heap_inv_def)
  then have "heap_inv heap'"
    using h'(4,6) assms(1) by (simp add: heap_inv_def index_consistent_unique)
  then show ?thesis using ExtractMin h'(1) by simp
next
  case (DecreasePriority i p)
  then show ?thesis using assms(1) by (simp add: decreasePriority_def)
qed

lemma run_inv:
  "heap_inv heap \<Longrightarrow> admissible heap ops \<Longrightarrow> \<exists>heap'. run heap ops = Some heap' \<and> heap_inv heap'"
proof (induction ops arbitrary: heap)
  case Nil
  then show ?case by simp
next
  case (Cons x xs)
  from perform_inv [OF Cons.prems(1)] Cons.prems(2)
  obtain heap1 where h1: "perform heap x = Some heap1" "heap_inv heap1" by auto
  then have "admissible heap1 xs" using Cons.prems(2) by simp
  from Cons.IH [OF h1(2) this] show ?case using h1(1) by simp
qed

text \<open>
  C2. Heap-order invariant I1: starting from a freshly created heap (whatever the
  contents of the freshly allocated arrays), after any sequence of \<^verbatim>\<open>insert\<close>,
  \<^verbatim>\<open>extractMin\<close> and \<^verbatim>\<open>decreasePriority\<close> calls, each made with its preconditions
  satisfied, every call returns, and in the resulting heap the priority at the parent of
  every live position \<open>p\<close> with \<open>1 < p \<le> size\<close> is at most the priority at \<open>p\<close>.
\<close>

theorem heap_order_after_any_sequence:
  assumes "0 \<le> c" and "admissible (newHeap c a m) ops"
  shows "\<exists>heap. run (newHeap c a m) ops = Some heap \<and>
           (\<forall>p\<in>{2..size_heap heap}. priorityAt heap (parentIdx heap p) \<le> priorityAt heap p)"
  using run_inv [OF newHeap_inv [OF assms(1)] assms(2)]
  by (auto simp: heap_inv_def heap_order_def)

text \<open>
  C3. Index-consistency invariant I3: after every public operation of such a sequence
  has returned, the index map entry of the identifier stored at a live position \<open>p\<close> is
  \<open>p\<close>, and no other live position holds that identifier.
\<close>

theorem index_consistent_after_any_sequence:
  assumes "0 \<le> c" and "admissible (newHeap c a m) ops"
  shows "\<exists>heap. run (newHeap c a m) ops = Some heap \<and>
           (\<forall>p\<in>{ROOT_INDEX..size_heap heap}.
              indexOf heap (idAt heap p) = p \<and>
              (\<forall>q\<in>{ROOT_INDEX..size_heap heap}. idAt heap q = idAt heap p \<longrightarrow> q = p))"
proof -
  from run_inv [OF newHeap_inv [OF assms(1)] assms(2)]
  obtain heap where h: "run (newHeap c a m) ops = Some heap" "heap_inv heap" by blast
  then have "index_consistent heap" "ids_unique heap" by (simp_all add: heap_inv_def)
  then show ?thesis
    using h(1) unfolding index_consistent_def ids_unique_def by blast
qed

section \<open>Evaluation on concrete heaps\<close>

lemma Ball_upto: "(\<forall>p\<in>{i..j::int}. P p) \<longleftrightarrow> list_all P [i..j]"
  by (simp add: list_all_iff)

lemma Bex_upto: "(\<exists>p\<in>{i..j::int}. P p) \<longleftrightarrow> list_ex P [i..j]"
  by (simp add: list_ex_iff)

lemmas upto_from_one = upto.simps [of 1 "numeral n"] for n

lemmas eval_defs =
  newHeap_def insert_heap_def extractMin_def bubbleDown_def bubbleDown_body_def
  bubbleDown_loop.simps bubbleUp.simps swap_def decreasePriority_def getMin_def
  leftIdx_def rightIdx_def parentIdx_def isValidIndex_def
  nodeAt_def priorityAt_def idAt_def indexOf_def ROOT_INDEX_def NOTHING_def Let_def
  insert_pre_def Ball_upto Bex_upto upto_from_one

lemmas inv_defs =
  heap_inv_def in_bounds_def index_consistent_def ids_unique_def heap_order_def

text \<open>Some contents for freshly allocated arrays, and a sequence of calls.\<close>

definition arr0 :: "int \<Rightarrow> HeapNode" where
  "arr0 = (\<lambda>_. \<lparr>priority = 0, id_node = 0\<rparr>)"

definition indexMap0 :: "int \<Rightarrow> int" where
  "indexMap0 = (\<lambda>_. 0)"

definition calls1 :: "operation list" where
  "calls1 = [Insert 5 0, Insert 3 1, Insert 8 2, ExtractMin, DecreasePriority 2 4,
     Insert 1 3, ExtractMin]"

lemma calls1_admissible: "admissible (newHeap 5 arr0 indexMap0) calls1"
  by (simp add: calls1_def eval_defs)

theorem heap_order_after_any_sequence_witness:
  "(0::int) \<le> 5 \<and> admissible (newHeap 5 arr0 indexMap0) calls1 \<and>
   (\<exists>heap. run (newHeap 5 arr0 indexMap0) calls1 = Some heap \<and>
      (\<forall>p\<in>{2..size_heap heap}. priorityAt heap (parentIdx heap p) \<le> priorityAt heap p))"
proof -
  have c: "(0::int) \<le> 5" by simp
  from heap_order_after_any_sequence [OF c calls1_admissible] c calls1_admissible
  show ?thesis by (intro conjI)
qed

theorem index_consistent_after_any_sequence_witness:
  "(0::int) \<le> 5 \<and> admissible (newHeap 5 arr0 indexMap0) calls1 \<and>
   (\<exists>heap. run (newHeap 5 arr0 indexMap0) calls1 = Some heap \<and>
      (\<forall>p\<in>{ROOT_INDEX..size_heap heap}.
         indexOf heap (idAt heap p) = p \<and>
         (\<forall>q\<in>{ROOT_INDEX..size_heap heap}. idAt heap q = idAt heap p \<longrightarrow> q = p)))"
proof -
  have c: "(0::int) \<le> 5" by simp
  from index_consistent_after_any_sequence [OF c calls1_admissible] c calls1_admissible
  show ?thesis by (intro conjI)
qed

section \<open>Inserting, then extracting everything\<close>

text \<open>A list of \<open>(priority, identifier)\<close> pairs is inserted from left to right.\<close>

fun insert_all :: "MinHeap \<Rightarrow> (int \<times> int) list \<Rightarrow> MinHeap" where
  "insert_all heap [] = heap"
| "insert_all heap ((p, i) # xs) = insert_all (insert_heap heap p i) xs"

fun inserts_pre :: "MinHeap \<Rightarrow> (int \<times> int) list \<Rightarrow> bool" where
  "inserts_pre heap [] = True"
| "inserts_pre heap ((p, i) # xs) = (insert_pre heap i \<and> inserts_pre (insert_heap heap p i) xs)"

text \<open>\<open>n\<close> calls of \<^verbatim>\<open>extractMin\<close> in a row, with the nodes they return, in order.\<close>

fun extract_n :: "nat \<Rightarrow> MinHeap \<Rightarrow> (HeapNode list \<times> MinHeap) option" where
  "extract_n 0 heap = Some ([], heap)"
| "extract_n (Suc n) heap =
     (case extractMin heap of
        None \<Rightarrow> None
      | Some (node, heap') \<Rightarrow>
          (case extract_n n heap' of
             None \<Rightarrow> None
           | Some (nodes, heap'') \<Rightarrow> Some (node # nodes, heap'')))"

lemma insert_all_inv:
  "heap_inv heap \<Longrightarrow> inserts_pre heap xs \<Longrightarrow>
     heap_inv (insert_all heap xs) \<and>
     size_heap (insert_all heap xs) = size_heap heap + int (length xs)"
proof (induction xs arbitrary: heap)
  case Nil
  then show ?case by simp
next
  case (Cons x xs)
  obtain p i where x: "x = (p, i)" by (cases x)
  have "precondition heap (Insert p i)" using Cons.prems(2) x by simp
  from perform_inv [OF Cons.prems(1) this] have "heap_inv (insert_heap heap p i)" by simp
  from Cons.IH [OF this] Cons.prems(2) x show ?case by simp
qed

lemma extract_n_sorted:
  "index_consistent heap \<Longrightarrow> heap_order heap \<Longrightarrow> size_heap heap = int n \<Longrightarrow>
     \<exists>nodes heap'. extract_n n heap = Some (nodes, heap') \<and> length nodes = n \<and>
       sorted (map priority nodes) \<and> size_heap heap' = 0 \<and> set nodes \<subseteq> live_nodes heap"
proof (induction n arbitrary: heap)
  case 0
  then show ?case by simp
next
  case (Suc n)
  have s: "0 < size_heap heap" using Suc.prems(3) by simp
  from extractMin_correct [OF Suc.prems(1) s] Suc.prems(2) obtain heap1 where h1:
    "extractMin heap = Some (getMin heap, heap1)" "size_heap heap1 = size_heap heap - 1"
    "index_consistent heap1" "live_nodes heap = insert (getMin heap) (live_nodes heap1)"
    "heap_order heap1"
    by blast
  have "size_heap heap1 = int n" using h1(2) Suc.prems(3) by simp
  from Suc.IH [OF h1(3,5) this] obtain nodes heap' where r:
    "extract_n n heap1 = Some (nodes, heap')" "length nodes = n"
    "sorted (map priority nodes)" "size_heap heap' = 0" "set nodes \<subseteq> live_nodes heap1"
    by blast
  have sub: "set nodes \<subseteq> live_nodes heap" using r(5) h1(4) by auto
  then have "\<forall>x\<in>set nodes. priority (getMin heap) \<le> priority x"
    using getMin_minimal [OF Suc.prems(2)] by blast
  then have "sorted (map priority (getMin heap # nodes))" using r(3) by simp
  moreover have "set (getMin heap # nodes) \<subseteq> live_nodes heap" using sub h1(4) by auto
  moreover have "extract_n (Suc n) heap = Some (getMin heap # nodes, heap')"
    using h1(1) r(1) by simp
  ultimately show ?case using r(2,4) by simp
qed

text \<open>
  C5. For every heap built from a fresh one by \<open>n\<close> inserts with their preconditions
  satisfied (so the identifiers are distinct), \<open>n\<close> calls of \<^verbatim>\<open>extractMin\<close> all return,
  the priorities of the \<open>n\<close> returned nodes are non-decreasing, and the heap is left with
  size 0; in particular, inserting the priorities 5, 3, 8, 1, 4 with the identifiers
  0, 1, 2, 3, 4 and extracting five times yields the priorities 1, 3, 4, 5, 8.
\<close>

theorem extraction_order:
  "(0 \<le> c \<and> inserts_pre (newHeap c a m) xs \<longrightarrow>
      (\<exists>nodes heap'. extract_n (length xs) (insert_all (newHeap c a m) xs) = Some (nodes, heap') \<and>
         length nodes = length xs \<and> sorted (map priority nodes) \<and> size_heap heap' = 0)) \<and>
   map_option (\<lambda>(nodes, heap'). (map priority nodes, size_heap heap'))
     (extract_n 5 (insert_all (newHeap 5 a m) [(5, 0), (3, 1), (8, 2), (1, 3), (4, 4)]))
   = Some ([1, 3, 4, 5, 8], 0)"
proof (intro conjI impI)
  assume pre: "0 \<le> c \<and> inserts_pre (newHeap c a m) xs"
  let ?h = "insert_all (newHeap c a m) xs"
  from insert_all_inv [OF newHeap_inv] pre
  have "heap_inv ?h" "size_heap ?h = int (length xs)"
    by (simp_all add: newHeap_def)
  then have "index_consistent ?h" "heap_order ?h" "size_heap ?h = int (length xs)"
    by (simp_all add: heap_inv_def)
  from extract_n_sorted [OF this]
  show "\<exists>nodes heap'. extract_n (length xs) ?h = Some (nodes, heap') \<and>
         length nodes = length xs \<and> sorted (map priority nodes) \<and> size_heap heap' = 0"
    by blast
next
  have five: "(5::nat) = Suc (Suc (Suc (Suc (Suc 0))))" by simp
  show "map_option (\<lambda>(nodes, heap'). (map priority nodes, size_heap heap'))
     (extract_n 5 (insert_all (newHeap 5 a m) [(5, 0), (3, 1), (8, 2), (1, 3), (4, 4)]))
   = Some ([1, 3, 4, 5, 8], 0)"
    unfolding five by (simp add: eval_defs)
qed

theorem extraction_order_witness:
  "(0::int) \<le> 5 \<and>
   inserts_pre (newHeap 5 arr0 indexMap0) [(5, 0), (3, 1), (8, 2), (1, 3), (4, 4)] \<and>
   (\<exists>nodes heap'.
      extract_n (length [(5::int, 0::int), (3, 1), (8, 2), (1, 3), (4, 4)])
        (insert_all (newHeap 5 arr0 indexMap0) [(5, 0), (3, 1), (8, 2), (1, 3), (4, 4)])
      = Some (nodes, heap') \<and>
      length nodes = length [(5::int, 0::int), (3, 1), (8, 2), (1, 3), (4, 4)] \<and>
      sorted (map priority nodes) \<and> size_heap heap' = 0)"
proof -
  have pre: "(0::int) \<le> 5 \<and>
      inserts_pre (newHeap 5 arr0 indexMap0) [(5, 0), (3, 1), (8, 2), (1, 3), (4, 4)]"
    by (simp add: eval_defs)
  from extraction_order [of 5 arr0 indexMap0 "[(5, 0), (3, 1), (8, 2), (1, 3), (4, 4)]",
      THEN conjunct1, rule_format, OF pre] pre
  show ?thesis by (intro conjI) simp_all
qed

text \<open>
  C6. On every non-empty heap that satisfies the invariants, \<^verbatim>\<open>extractMin\<close> returns, and
  it returns the node that was at the root before the call, whose priority is minimal
  among the live nodes; the size is one less afterwards and the index map entry of the
  removed identifier is cleared (set to 0).
\<close>

theorem extractMin_returns_root:
  assumes "heap_inv heap" and "0 < size_heap heap"
  shows "\<exists>heap'. extractMin heap = Some (getMin heap, heap') \<and>
           getMin heap = nodeAt heap ROOT_INDEX \<and>
           (\<forall>p\<in>{ROOT_INDEX..size_heap heap}. priority (getMin heap) \<le> priorityAt heap p) \<and>
           size_heap heap' = size_heap heap - 1 \<and>
           indexOf heap' (id_node (getMin heap)) = 0"
proof -
  have inv: "index_consistent heap" "heap_order heap"
    using assms(1) by (simp_all add: heap_inv_def)
  from extractMin_correct [OF inv(1) assms(2)] obtain heap' where
    "extractMin heap = Some (getMin heap, heap')" "size_heap heap' = size_heap heap - 1"
    "indexOf heap' (id_node (getMin heap)) = 0"
    by blast
  moreover have "\<forall>p\<in>{ROOT_INDEX..size_heap heap}. priority (getMin heap) \<le> priorityAt heap p"
    using getMin_minimal [OF inv(2)] by (simp add: live_nodes_def priorityAt_def)
  ultimately show ?thesis by (simp add: getMin_def nodeAt_def)
qed

definition heap3 :: MinHeap where
  "heap3 = insert_all (newHeap 5 arr0 indexMap0) [(5, 0), (3, 1), (8, 2)]"

lemma heap3_inv: "heap_inv heap3"
  by (simp add: heap3_def inv_defs eval_defs)

lemma heap3_size: "size_heap heap3 = 3"
  by (simp add: heap3_def eval_defs)

theorem extractMin_returns_root_witness:
  "heap_inv heap3 \<and> 0 < size_heap heap3 \<and>
   (\<exists>heap'. extractMin heap3 = Some (getMin heap3, heap') \<and>
      getMin heap3 = nodeAt heap3 ROOT_INDEX \<and>
      (\<forall>p\<in>{ROOT_INDEX..size_heap heap3}. priority (getMin heap3) \<le> priorityAt heap3 p) \<and>
      size_heap heap' = size_heap heap3 - 1 \<and>
      indexOf heap' (id_node (getMin heap3)) = 0)"
proof -
  have s: "0 < size_heap heap3" by (simp add: heap3_size)
  from extractMin_returns_root [OF heap3_inv s] heap3_inv s
  show ?thesis by (intro conjI)
qed

text \<open>
  C10. On a non-empty heap whose index map is consistent, \<^verbatim>\<open>extractMin\<close> returns and
  leaves the index map entry of the removed identifier at 0: not \<^verbatim>\<open>NOTHING\<close>, and not a
  valid index of any heap.
\<close>

theorem extractMin_clears_to_zero:
  assumes "index_consistent heap" and "0 < size_heap heap"
  shows "\<exists>node heap'. extractMin heap = Some (node, heap') \<and>
           indexOf heap' (id_node node) = 0 \<and>
           indexOf heap' (id_node node) \<noteq> NOTHING \<and>
           \<not> isValidIndex heap' (indexOf heap' (id_node node)) \<and>
           \<not> isValidIndex heap (indexOf heap' (id_node node))"
proof -
  from extractMin_correct [OF assms] obtain heap' where
    "extractMin heap = Some (getMin heap, heap')"
    "indexOf heap' (id_node (getMin heap)) = 0"
    by blast
  then show ?thesis
    by (simp add: NOTHING_def isValidIndex_def ROOT_INDEX_def)
qed

lemma heap3_index_consistent: "index_consistent heap3"
  using heap3_inv by (simp add: heap_inv_def)

theorem extractMin_clears_to_zero_witness:
  "index_consistent heap3 \<and> 0 < size_heap heap3 \<and>
   (\<exists>node heap'. extractMin heap3 = Some (node, heap') \<and>
      indexOf heap' (id_node node) = 0 \<and>
      indexOf heap' (id_node node) \<noteq> NOTHING \<and>
      \<not> isValidIndex heap' (indexOf heap' (id_node node)) \<and>
      \<not> isValidIndex heap3 (indexOf heap' (id_node node)))"
proof -
  have s: "0 < size_heap heap3" by (simp add: heap3_size)
  from extractMin_clears_to_zero [OF heap3_index_consistent s] heap3_index_consistent s
  show ?thesis by (intro conjI)
qed

text \<open>
  The consistency of the index map is needed for C10: when two live positions hold the
  identifier that is removed, a swap of \<^verbatim>\<open>bubbleDown\<close> writes its entry again.
\<close>

definition dup_heap :: MinHeap where
  "dup_heap =
     \<lparr>size_heap = 3, capacity = 9,
      arr = arr0(1 := \<lparr>priority = 1, id_node = 7\<rparr>, 2 := \<lparr>priority = 2, id_node = 7\<rparr>,
                 3 := \<lparr>priority = 9, id_node = 8\<rparr>),
      indexMap = indexMap0(7 := 1, 8 := 3)\<rparr>"

lemma extractMin_duplicate_identifier:
  "\<not> index_consistent dup_heap \<and>
   map_option (\<lambda>(node, heap'). (id_node node, indexOf heap' (id_node node))) (extractMin dup_heap)
   = Some (7, 1)"
  by (simp add: dup_heap_def index_consistent_def eval_defs)

section \<open>Decreasing a priority\<close>

definition heap2 :: MinHeap where
  "heap2 = insert_all (newHeap 2 arr0 indexMap0) [(10, 0), (20, 1)]"

text \<open>
  C1. The source documents \<^verbatim>\<open>decreasePriority\<close> as setting the priority of a live
  identifier to a strictly smaller value, bubbling the node up and returning true, but
  the body is the stub \<^verbatim>\<open>return false;\<close>. After inserting identifier 0 with priority 10
  and identifier 1 with priority 20, identifier 1 is live at position 2 with priority 20,
  and \<^verbatim>\<open>decreasePriority(1, 5)\<close> returns false, leaves the priority of identifier 1 at 20
  and leaves identifier 0 at the root.
\<close>

theorem decreasePriority_stub_rejects_live_decrease:
  "isValidIndex heap2 (indexOf heap2 1) \<and> idAt heap2 (indexOf heap2 1) = 1 \<and>
   priorityAt heap2 (indexOf heap2 1) = 20 \<and>
   fst (decreasePriority heap2 1 5) = False \<and>
   priorityAt (snd (decreasePriority heap2 1 5)) (indexOf (snd (decreasePriority heap2 1 5)) 1) = 20 \<and>
   id_node (getMin (snd (decreasePriority heap2 1 5))) = 0"
  by (simp add: heap2_def eval_defs)

text \<open>
  C7. If \<^verbatim>\<open>decreasePriority\<close> is called with an identifier that is at no live position,
  or with a new priority that is not strictly smaller than the current priority of the
  identifier, it returns false and the whole heap is unchanged.
\<close>

theorem decreasePriority_rejection_unchanged:
  assumes "\<not> (\<exists>p\<in>{ROOT_INDEX..size_heap heap}. idAt heap p = i) \<or>
           priorityAt heap (indexOf heap i) \<le> newPriority"
  shows "decreasePriority heap i newPriority = (False, heap)"
  by (simp add: decreasePriority_def)

theorem decreasePriority_rejection_unchanged_witness:
  "\<not> (\<exists>p\<in>{ROOT_INDEX..size_heap heap2}. idAt heap2 p = 7) \<and>
   decreasePriority heap2 7 0 = (False, heap2) \<and>
   priorityAt heap2 (indexOf heap2 1) \<le> 20 \<and>
   decreasePriority heap2 1 20 = (False, heap2)"
proof -
  have absent: "\<not> (\<exists>p\<in>{ROOT_INDEX..size_heap heap2}. idAt heap2 p = 7)"
    by (simp add: heap2_def eval_defs)
  have larger: "priorityAt heap2 (indexOf heap2 1) \<le> 20"
    by (simp add: heap2_def eval_defs)
  from decreasePriority_rejection_unchanged [of heap2 7 0] absent
  have "decreasePriority heap2 7 0 = (False, heap2)" by blast
  moreover from decreasePriority_rejection_unchanged [of heap2 1 20] larger
  have "decreasePriority heap2 1 20 = (False, heap2)" by blast
  ultimately show ?thesis using absent larger by (intro conjI)
qed

section \<open>Sifting up from a position that is not live\<close>

text \<open>
  C9. If the position given to \<^verbatim>\<open>bubbleUp\<close> is not a valid live position (it is below 1
  or above the size), the whole heap is unchanged.
\<close>

theorem bubbleUp_invalid_position:
  assumes "nodeIndex < 1 \<or> size_heap heap < nodeIndex"
  shows "bubbleUp heap nodeIndex = heap"
proof -
  have "parentIdx heap nodeIndex = NOTHING"
    using assms by (auto simp: parentIdx_def isValidIndex_def ROOT_INDEX_def)
  then show ?thesis by (simp add: bubbleUp.simps [of heap nodeIndex])
qed

theorem bubbleUp_invalid_position_witness:
  "((0::int) < 1 \<or> size_heap heap2 < 0) \<and> bubbleUp heap2 0 = heap2 \<and>
   ((3::int) < 1 \<or> size_heap heap2 < 3) \<and> bubbleUp heap2 3 = heap2"
proof -
  have low: "(0::int) < 1 \<or> size_heap heap2 < 0" by simp
  have high: "(3::int) < 1 \<or> size_heap heap2 < 3" by (simp add: heap2_def eval_defs)
  from bubbleUp_invalid_position [OF low] bubbleUp_invalid_position [OF high] low high
  show ?thesis by (intro conjI)
qed

section \<open>The children of a node\<close>

text \<open>
  A heap of three nodes whose root is larger than its two children, which have equal
  priorities: the state \<^verbatim>\<open>extractMin\<close> hands to \<^verbatim>\<open>bubbleDown\<close> when the last node has
  priority 5 and the children of the root have priority 1.
\<close>

definition tie_heap :: MinHeap where
  "tie_heap =
     \<lparr>size_heap = 3, capacity = 4,
      arr = arr0(1 := \<lparr>priority = 5, id_node = 0\<rparr>, 2 := \<lparr>priority = 1, id_node = 1\<rparr>,
                 3 := \<lparr>priority = 1, id_node = 2\<rparr>),
      indexMap = indexMap0(0 := 1, 1 := 2, 2 := 3)\<rparr>"

text \<open>
  C4, as the code has it. When the node being demoted has two children whose priorities
  are equal and both strictly smaller than the priority of the node, the pass of the
  loop swaps the node with its right child.
\<close>

theorem bubbleDown_tie_swaps_right:
  assumes "rightIdx heap (indexOf heap i) \<noteq> NOTHING"
    and "priorityAt heap (leftIdx heap (indexOf heap i)) =
         priorityAt heap (rightIdx heap (indexOf heap i))"
    and "priorityAt heap (leftIdx heap (indexOf heap i)) < priorityAt heap (indexOf heap i)"
  shows "bubbleDown_body heap i (leftIdx heap (indexOf heap i)) (rightIdx heap (indexOf heap i)) =
           Swapped (swap heap (indexOf heap i) (rightIdx heap (indexOf heap i)))"
  using assms by (simp add: bubbleDown_body_def)

theorem bubbleDown_tie_swaps_right_witness:
  "rightIdx tie_heap (indexOf tie_heap 0) \<noteq> NOTHING \<and>
   priorityAt tie_heap (leftIdx tie_heap (indexOf tie_heap 0)) =
     priorityAt tie_heap (rightIdx tie_heap (indexOf tie_heap 0)) \<and>
   priorityAt tie_heap (leftIdx tie_heap (indexOf tie_heap 0)) <
     priorityAt tie_heap (indexOf tie_heap 0) \<and>
   bubbleDown_body tie_heap 0 (leftIdx tie_heap (indexOf tie_heap 0))
       (rightIdx tie_heap (indexOf tie_heap 0)) =
     Swapped (swap tie_heap (indexOf tie_heap 0) (rightIdx tie_heap (indexOf tie_heap 0)))"
proof -
  have r: "rightIdx tie_heap (indexOf tie_heap 0) \<noteq> NOTHING"
    by (simp add: tie_heap_def eval_defs)
  have e: "priorityAt tie_heap (leftIdx tie_heap (indexOf tie_heap 0)) =
     priorityAt tie_heap (rightIdx tie_heap (indexOf tie_heap 0))"
    by (simp add: tie_heap_def eval_defs)
  have l: "priorityAt tie_heap (leftIdx tie_heap (indexOf tie_heap 0)) <
     priorityAt tie_heap (indexOf tie_heap 0)"
    by (simp add: tie_heap_def eval_defs)
  from bubbleDown_tie_swaps_right [OF r e l] r e l show ?thesis by (intro conjI)
qed

text \<open>
  On \<open>tie_heap\<close> the root has the left child 2 and the right child 3, of equal priorities
  below that of the root, and the pass of the loop does not swap the root with its left
  child: afterwards the left child is still at position 2 and the old root is at
  position 3. The same happens through the public functions: after inserting the
  priorities 0, 1, 1, 5 with the identifiers 3, 1, 2, 0, \<^verbatim>\<open>extractMin\<close> leaves identifier 0
  at position 3.
\<close>

theorem tie_not_left_counterexample:
  "indexOf tie_heap 0 = 1 \<and> idAt tie_heap 1 = 0 \<and>
   leftIdx tie_heap 1 = 2 \<and> rightIdx tie_heap 1 = 3 \<and>
   priorityAt tie_heap 2 = priorityAt tie_heap 3 \<and>
   priorityAt tie_heap 2 < priorityAt tie_heap 1 \<and>
   bubbleDown_body tie_heap 0 2 3 \<noteq> Swapped (swap tie_heap 1 2) \<and>
   map_option (\<lambda>heap'. map (idAt heap') [1, 2, 3]) (bubbleDown tie_heap) = Some [2, 1, 0] \<and>
   map_option (\<lambda>(node, heap'). (priority node, map (idAt heap') [1, 2, 3]))
     (extractMin (insert_all (newHeap 4 arr0 indexMap0) [(0, 3), (1, 1), (1, 2), (5, 0)]))
   = Some (0, [2, 1, 0])"
proof -
  have "idAt (swap tie_heap 1 3) 2 \<noteq> idAt (swap tie_heap 1 2) 2"
    by (simp add: tie_heap_def eval_defs)
  then have "swap tie_heap 1 3 \<noteq> swap tie_heap 1 2" by auto
  moreover have "bubbleDown_body tie_heap 0 2 3 = Swapped (swap tie_heap 1 3)"
    by (simp add: bubbleDown_body_def tie_heap_def priorityAt_def indexOf_def NOTHING_def)
  ultimately have "bubbleDown_body tie_heap 0 2 3 \<noteq> Swapped (swap tie_heap 1 2)" by simp
  moreover have "indexOf tie_heap 0 = 1 \<and> idAt tie_heap 1 = 0 \<and>
   leftIdx tie_heap 1 = 2 \<and> rightIdx tie_heap 1 = 3 \<and>
   priorityAt tie_heap 2 = priorityAt tie_heap 3 \<and>
   priorityAt tie_heap 2 < priorityAt tie_heap 1"
    by (simp add: tie_heap_def eval_defs)
  moreover have "map_option (\<lambda>heap'. map (idAt heap') [1, 2, 3]) (bubbleDown tie_heap) = Some [2, 1, 0]"
    by (simp add: tie_heap_def eval_defs)
  moreover have "map_option (\<lambda>(node, heap'). (priority node, map (idAt heap') [1, 2, 3]))
     (extractMin (insert_all (newHeap 4 arr0 indexMap0) [(0, 3), (1, 1), (1, 2), (5, 0)]))
   = Some (0, [2, 1, 0])"
    by (simp add: eval_defs)
  ultimately show ?thesis by (intro conjI) simp_all
qed

text \<open>
  The level of a position in the tree the array stands for: the number of steps
  \<open>nodeIndex / 2\<close>, as \<^verbatim>\<open>parentIdx\<close> takes them, from the position up to the root.
\<close>

function level :: "int \<Rightarrow> nat" where
  "level p = (if p \<le> 1 then 0 else Suc (level (p div 2)))"
  by pat_completeness auto
termination
  by (relation "measure nat") auto

declare level.simps [simp del]

lemma level_double: "1 \<le> p \<Longrightarrow> level (2 * p) = Suc (level p)"
  by (simp add: level.simps [of "2 * p"])

text \<open>
  C8, as the code has it. A position has a left child and no right child precisely when
  it is a valid position, the size is even and the position is the parent of the last
  live position, which puts it one level above the last level of the tree.
\<close>

theorem one_child_iff_size_even:
  "leftIdx heap p \<noteq> NOTHING \<and> rightIdx heap p = NOTHING \<longleftrightarrow>
     isValidIndex heap p \<and> even (size_heap heap) \<and> p = size_heap heap div 2 \<and>
     Suc (level p) = level (size_heap heap)"
proof (cases "isValidIndex heap p")
  case False
  then show ?thesis by (simp add: leftIdx_def)
next
  case True
  then have p: "1 \<le> p" by (simp add: valid_iff)
  have "leftIdx heap p \<noteq> NOTHING \<and> rightIdx heap p = NOTHING \<longleftrightarrow>
      2 * p \<le> size_heap heap \<and> \<not> 2 * p + 1 \<le> size_heap heap"
    using p by (simp add: leftIdx_eq [OF True] rightIdx_eq [OF True] NOTHING_def)
  also have "\<dots> \<longleftrightarrow> size_heap heap = 2 * p"
    by presburger
  also have "\<dots> \<longleftrightarrow> even (size_heap heap) \<and> p = size_heap heap div 2 \<and>
      Suc (level p) = level (size_heap heap)"
  proof
    assume "size_heap heap = 2 * p"
    then show "even (size_heap heap) \<and> p = size_heap heap div 2 \<and>
      Suc (level p) = level (size_heap heap)"
      using level_double [OF p] by simp
  next
    assume "even (size_heap heap) \<and> p = size_heap heap div 2 \<and>
      Suc (level p) = level (size_heap heap)"
    then show "size_heap heap = 2 * p" by presburger
  qed
  finally show ?thesis using True by simp
qed

theorem one_child_iff_size_even_witness:
  "leftIdx heap2 1 \<noteq> NOTHING \<and> rightIdx heap2 1 = NOTHING \<and>
   isValidIndex heap2 1 \<and> even (size_heap heap2) \<and> 1 = size_heap heap2 div 2 \<and>
   Suc (level 1) = level (size_heap heap2)"
proof -
  have "isValidIndex heap2 1 \<and> even (size_heap heap2) \<and> 1 = size_heap heap2 div 2 \<and>
      Suc (level 1) = level (size_heap heap2)"
    by (simp add: heap2_def eval_defs level.simps)
  with one_child_iff_size_even [of heap2 1] show ?thesis by blast
qed

text \<open>
  In \<open>heap2\<close> the root has a left child and no right child, and the size, 2, is not odd.
\<close>

theorem one_child_size_not_odd_counterexample:
  "isValidIndex heap2 1 \<and> leftIdx heap2 1 \<noteq> NOTHING \<and> rightIdx heap2 1 = NOTHING \<and>
   \<not> odd (size_heap heap2)"
  by (simp add: heap2_def eval_defs)

end
